theory Spec2Isabelle
  imports Main "HOL-Library.Multiset"
begin

section \<open>The data of script.js\<close>

text \<open>
  The game keeps one global array \<^verbatim>\<open>categories\<close>. Each entry is an object
  \<^verbatim>\<open>{title, clues}\<close>, each clue an object \<^verbatim>\<open>{question, answer, showing}\<close>.
  The field \<^verbatim>\<open>showing\<close> holds \<^verbatim>\<open>null\<close>, \<^verbatim>\<open>'question'\<close> or \<^verbatim>\<open>'answer'\<close>:
  these are the only values the program ever stores there.
\<close>

datatype showing = Null | Question | Answer

record clue =
  question :: string
  answer :: string
  showing :: showing

record category =
  title :: string
  clues :: "clue list"

definition NUM_CATEGORIES :: nat where
  "NUM_CATEGORIES = 6"

definition NUM_CLUES :: nat where
  "NUM_CLUES = 5"

text \<open>
  What the remote service sends. A candidate of \<^verbatim>\<open>/api/categories\<close> carries an
  \<^verbatim>\<open>id\<close> and further fields the program never reads; the data of
  \<^verbatim>\<open>/api/category\<close> carries a title and a list of raw clues, each with a question,
  an answer and further fields. The unread fields are kept as an association list.
\<close>

record raw_category =
  cat_id :: int
  cat_other :: "(string \<times> string) list"

record raw_clue =
  raw_question :: string
  raw_answer :: string
  raw_other :: "(string \<times> string) list"

record category_data =
  raw_title :: string
  raw_clues :: "raw_clue list"

text \<open>
  A promise rejects, and a handler throws, with one of two errors: the request failed
  (axios rejects), or a property of \<^verbatim>\<open>undefined\<close> was read (a TypeError).
\<close>

datatype error = RequestFailed | TypeError

datatype completion = Normal | Throw error

subsection \<open>The page\<close>

text \<open>
  The table \<^verbatim>\<open>#gameboard\<close> holds a head (the text of one cell per category) and a body
  of rows; a row has an id and cells, a cell has the attribute \<^verbatim>\<open>data-category\<close>, a
  text and a class list. Row ids and \<^verbatim>\<open>data-category\<close> are the decimal strings
  written by \<^verbatim>\<open>fillTable\<close>; indexing a JavaScript array by such a string is indexing
  by the number, so they are natural numbers here.
\<close>

record td =
  data_category :: nat
  innerText :: string
  classList :: string

record tr =
  row_id :: nat
  cells :: "td list"

datatype table_section = Thead "string list" | Tbody "tr list"

datatype request = GetCategories nat nat | GetCategory int

text \<open>
  What the network has seen: a request sent, and a request settled (its answer, or its
  failure, has arrived and the code waiting for it has been resumed).
\<close>

datatype traffic = Sent request | Settled request

text \<open>
  An \<^verbatim>\<open>async\<close> function runs until its next \<^verbatim>\<open>await\<close> and is resumed when the awaited
  request settles; in between, other handlers run. A start that is waiting is either at
  line 34, waiting for the candidates it requested (with the count and the offset of the
  request), or at line 58 inside the loop of \<^verbatim>\<open>getCategory\<close>, waiting for the category
  of one id, with the ids the loop has still to visit.
\<close>

datatype await = AwaitCategories nat nat | AwaitCategory int "int list"

text \<open>
  The mutable state of the page: the global \<^verbatim>\<open>categories\<close>, the children of the
  board, the loading spinner's display, the button's text, the alerts shown so far, the
  network traffic so far, the number of calls to \<^verbatim>\<open>Math.random\<close> so far, the starts
  that are waiting for a request, and how the promises of \<^verbatim>\<open>getCategoryIds\<close> that have
  settled did settle (resolved is \<open>Normal\<close>), in the order in which they settled.
\<close>

record page =
  categories :: "category list"
  board :: "table_section list"
  spinner_display :: string
  btn_text :: string
  alerts :: "string list"
  net_log :: "traffic list"
  random_calls :: nat
  pending :: "await list"
  settled :: "completion list"

text \<open>
  The world outside the program: what the service answers to a request, given the
  traffic up to the arrival of the answer (\<open>None\<close> is a failed request), and the random
  source.
  Floating point is not modelled: \<^verbatim>\<open>Math.floor(Math.random() * n)\<close> is some integer
  in \<open>[0, n)\<close>, here \<open>draw k mod n\<close> for the \<open>k\<close>-th call, with \<open>draw\<close> arbitrary.
\<close>

record env =
  categories_api :: "traffic list \<Rightarrow> nat \<Rightarrow> nat \<Rightarrow> raw_category list option"
  category_api :: "traffic list \<Rightarrow> int \<Rightarrow> category_data option"
  draw :: "nat \<Rightarrow> nat"

section \<open>Library functions the program calls\<close>

text \<open>Reading \<^verbatim>\<open>xs[i]\<close>: \<^verbatim>\<open>undefined\<close> (here \<open>None\<close>) out of range.\<close>

definition js_index :: "'a list \<Rightarrow> nat \<Rightarrow> 'a option" where
  "js_index xs i = (if i < length xs then Some (xs ! i) else None)"

text \<open>
  \<^verbatim>\<open>_.chunk(array, size)\<close> of lodash: no chunks for an empty array or a size below 1,
  otherwise slices of \<open>size\<close> elements, the last one shorter when the length is not a
  multiple.
\<close>

function chunk :: "'a list \<Rightarrow> nat \<Rightarrow> 'a list list" where
  "chunk array size' =
     (if array = [] \<or> size' < 1 then []
      else take size' array # chunk (drop size' array) size')"
  by pat_completeness auto
termination
  by (relation "measure (\<lambda>(array, size'). length array)") auto

text \<open>
  \<^verbatim>\<open>baseRandom(lower, upper)\<close> of lodash:
  \<^verbatim>\<open>lower + floor(random() * (upper - lower + 1))\<close>, with the \<open>k\<close>-th draw.
\<close>

definition baseRandom :: "env \<Rightarrow> nat \<Rightarrow> nat \<Rightarrow> nat \<Rightarrow> nat" where
  "baseRandom E k lower upper = lower + draw E k mod (upper - lower + 1)"

text \<open>
  \<^verbatim>\<open>shuffleSelf(array, size)\<close> of lodash, the loop from position \<open>index\<close> on: swap
  the element at \<open>index\<close> with one at a random position from \<open>index\<close> to the end, for
  \<open>index\<close> below \<open>size\<close>; then cut the array to \<open>size\<close>. The second component is the
  number of random draws made so far.
\<close>

function shuffleSelf :: "env \<Rightarrow> nat \<Rightarrow> nat \<Rightarrow> nat \<Rightarrow> 'a list \<Rightarrow> 'a list \<times> nat" where
  "shuffleSelf E size' index k array =
     (if index < size' then
        let rand = baseRandom E k index (length array - 1);
            val = array ! rand;
            array1 = array[rand := array ! index];
            array2 = array1[index := val]
        in shuffleSelf E size' (Suc index) (Suc k) array2
      else (take size' array, k))"
  by pat_completeness auto
termination
  by (relation "measure (\<lambda>(E, size', index, k, array). size' - index)") auto

text \<open>
  \<^verbatim>\<open>_.sampleSize(array, n)\<close> of lodash on an array: shuffle a copy, with the size
  clamped to the array's length.
\<close>

definition sampleSize :: "env \<Rightarrow> nat \<Rightarrow> 'a list \<Rightarrow> nat \<Rightarrow> 'a list \<times> nat" where
  "sampleSize E k array n = shuffleSelf E (min n (length array)) 0 k array"

section \<open>The program\<close>

subsection \<open>Requests and random numbers\<close>

text \<open>
  \<^verbatim>\<open>axios.get(...)\<close> sends the request; the code after \<^verbatim>\<open>await\<close> runs later, when the
  request has settled.
\<close>

definition send :: "request \<Rightarrow> page \<Rightarrow> page" where
  "send r w = w\<lparr>net_log := net_log w @ [Sent r]\<rparr>"

definition arrived :: "request \<Rightarrow> page \<Rightarrow> page" where
  "arrived r w = w\<lparr>net_log := net_log w @ [Settled r]\<rparr>"

text \<open>\<^verbatim>\<open>Math.floor(Math.random() * n)\<close>.\<close>

definition random_floor :: "env \<Rightarrow> nat \<Rightarrow> page \<Rightarrow> nat \<times> page" where
  "random_floor E n p = (draw E (random_calls p) mod n, p\<lparr>random_calls := Suc (random_calls p)\<rparr>)"

text \<open>The waiting starts without the one at position \<open>k\<close>, which has come to its end.\<close>

definition finished :: "nat \<Rightarrow> page \<Rightarrow> page" where
  "finished k w = w\<lparr>pending := take k (pending w) @ drop (Suc k) (pending w)\<rparr>"

subsection \<open>fillTable\<close>

text \<open>
  The head reads \<^verbatim>\<open>categories[i].title\<close> for \<open>i\<close> below \<open>NUM_CATEGORIES\<close>: a missing
  category throws a TypeError before anything is appended to the board. The body has
  \<open>NUM_CLUES\<close> rows with ids \<open>0, 1, ...\<close>, each with \<open>NUM_CATEGORIES\<close> cells showing
  \<^verbatim>\<open>?\<close>.
\<close>

fun head_cells :: "category list \<Rightarrow> nat list \<Rightarrow> error + string list" where
  "head_cells cats [] = Inr []"
| "head_cells cats (i # is) =
     (case js_index cats i of
        None \<Rightarrow> Inl TypeError
      | Some c \<Rightarrow> (case head_cells cats is of Inl e \<Rightarrow> Inl e | Inr ts \<Rightarrow> Inr (title c # ts)))"

definition body_rows :: "tr list" where
  "body_rows =
     map (\<lambda>i. \<lparr>row_id = i,
               cells = map (\<lambda>j. \<lparr>data_category = j, innerText = ''?'', classList = []\<rparr>)
                         [0..<NUM_CATEGORIES]\<rparr>)
       [0..<NUM_CLUES]"

definition fillTable :: "page \<Rightarrow> completion \<times> page" where
  "fillTable p =
     (case head_cells (categories p) [0..<NUM_CATEGORIES] of
        Inl e \<Rightarrow> (Throw e, p)
      | Inr topRow \<Rightarrow> (Normal, p\<lparr>board := board p @ [Thead topRow, Tbody body_rows]\<rparr>))"

subsection \<open>handleClick\<close>

text \<open>
  The event's target is the clicked cell; \<^verbatim>\<open>clicked.parentElement.id\<close> is the id of
  its row. Reading \<^verbatim>\<open>.clues\<close> of a missing category, or \<^verbatim>\<open>.showing\<close> of a missing
  clue, throws a TypeError before anything is written. \<^verbatim>\<open>clue\<close> is the object stored
  in the array (every clue object is created afresh by \<^verbatim>\<open>getCategory\<close>, so no two
  positions share one), hence writing \<^verbatim>\<open>clue.showing\<close> updates that one position.
\<close>

record event =
  parentElement_id :: nat
  target :: td

definition set_showing :: "category list \<Rightarrow> nat \<Rightarrow> nat \<Rightarrow> showing \<Rightarrow> category list" where
  "set_showing cats categoryId clueId v =
     cats[categoryId :=
       (cats ! categoryId)\<lparr>clues :=
         (clues (cats ! categoryId))[clueId :=
           (clues (cats ! categoryId) ! clueId)\<lparr>showing := v\<rparr>]\<rparr>]"

definition handleClick :: "event \<Rightarrow> category list \<Rightarrow> completion \<times> td \<times> category list" where
  "handleClick e cats =
     (let clicked = target e;
          clueId = parentElement_id e;
          categoryId = data_category clicked
      in case js_index cats categoryId of
           None \<Rightarrow> (Throw TypeError, clicked, cats)
         | Some cat \<Rightarrow>
             (case js_index (clues cat) clueId of
                None \<Rightarrow> (Throw TypeError, clicked, cats)
              | Some clue \<Rightarrow>
                  if showing clue = Null then
                    (Normal, clicked\<lparr>innerText := question clue\<rparr>,
                     set_showing cats categoryId clueId Question)
                  else if showing clue = Question then
                    (Normal, clicked\<lparr>innerText := answer clue, classList := ''answered''\<rparr>,
                     set_showing cats categoryId clueId Answer)
                  else (Normal, clicked, cats)))"

subsection \<open>The handlers of setupAndStart\<close>

definition showLoadingView :: "page \<Rightarrow> page" where
  "showLoadingView p = p\<lparr>spinner_display := ''inline-block'', btn_text := ''LOADING...''\<rparr>"

definition hideLoadingView :: "page \<Rightarrow> page" where
  "hideLoadingView p = p\<lparr>spinner_display := ''none'', btn_text := ''RESTART''\<rparr>"

definition alert :: "string \<Rightarrow> page \<Rightarrow> page" where
  "alert msg p = p\<lparr>alerts := alerts p @ [msg]\<rparr>"

definition failure_notice :: string where
  "failure_notice = ''OOPS, The request failed. Please try again.''"

text \<open>
  Lines 177 to 184: when the promise of \<^verbatim>\<open>getCategoryIds\<close> resolves, fill the table and
  hide the loading view; when it rejects, or \<^verbatim>\<open>fillTable\<close> throws, show the alert. These
  callbacks run as soon as the promise settles, before any other handler.
\<close>

definition promise_settled :: "completion \<Rightarrow> page \<Rightarrow> page" where
  "promise_settled r w =
     (let w1 = w\<lparr>settled := settled w @ [r]\<rparr> in
      case r of
        Throw e \<Rightarrow> alert failure_notice w1
      | Normal \<Rightarrow>
          (case fillTable w1 of
             (Throw e, w2) \<Rightarrow> alert failure_notice w2
           | (Normal, w2) \<Rightarrow> hideLoadingView w2))"

subsection \<open>getCategory\<close>

text \<open>
  Lines 61 to 72, from the data of one response to the category pushed: the first chunk
  of \<open>NUM_CLUES\<close> clues, each mapped to \<^verbatim>\<open>{question, answer, showing: null}\<close>.
  With no chunk, \<^verbatim>\<open>randomClues\<close> is \<^verbatim>\<open>undefined\<close> and \<^verbatim>\<open>randomClues.map\<close>
  throws a TypeError.
\<close>

definition project_clue :: "raw_clue \<Rightarrow> clue" where
  "project_clue c = \<lparr>question = raw_question c, answer = raw_answer c, showing = Null\<rparr>"

definition category_of_data :: "category_data \<Rightarrow> error + category" where
  "category_of_data data =
     (case js_index (chunk (raw_clues data) NUM_CLUES) 0 of
        None \<Rightarrow> Inl TypeError
      | Some randomClues \<Rightarrow>
          Inr \<lparr>title = raw_title data, clues = map project_clue randomClues\<rparr>)"

text \<open>
  The head of the loop of \<^verbatim>\<open>getCategory\<close> (line 56), run by the start waiting at
  position \<open>k\<close>: with an id left, its request is sent and the start waits for it at
  line 58; with none left, \<^verbatim>\<open>getCategory\<close> returns, so \<^verbatim>\<open>getCategoryIds\<close> returns and
  its promise resolves.
\<close>

definition getCategory_loop :: "nat \<Rightarrow> int list \<Rightarrow> page \<Rightarrow> page" where
  "getCategory_loop k categoryIdArray w =
     (case categoryIdArray of
        [] \<Rightarrow> promise_settled Normal (finished k w)
      | i # rest \<Rightarrow> (send (GetCategory i) w)\<lparr>pending := (pending w)[k := AwaitCategory i rest]\<rparr>)"

text \<open>
  The body of the loop after its \<^verbatim>\<open>await\<close> (lines 58 to 72), when the request for the
  id \<open>i\<close> has settled: a failed request, or a TypeError, rejects the promises of
  \<^verbatim>\<open>getCategory\<close> and \<^verbatim>\<open>getCategoryIds\<close>; otherwise the category is pushed onto the
  global array at once and the loop goes on with the ids left.
\<close>

definition getCategory_resumed :: "env \<Rightarrow> nat \<Rightarrow> int \<Rightarrow> int list \<Rightarrow> page \<Rightarrow> page" where
  "getCategory_resumed E k i rest w =
     (let response = category_api E (net_log w) i;
          w1 = arrived (GetCategory i) w
      in case response of
           None \<Rightarrow> promise_settled (Throw RequestFailed) (finished k w1)
         | Some data \<Rightarrow>
             (case category_of_data data of
                Inl e \<Rightarrow> promise_settled (Throw e) (finished k w1)
              | Inr c \<Rightarrow> getCategory_loop k rest (w1\<lparr>categories := categories w1 @ [c]\<rparr>)))"

subsection \<open>getCategoryIds\<close>

text \<open>
  Up to the \<^verbatim>\<open>await\<close> of line 34: one request for 100 candidates at a random offset
  below 7150, and the start waits for it.
\<close>

definition getCategoryIds :: "env \<Rightarrow> page \<Rightarrow> page" where
  "getCategoryIds E w =
     (let (offset, w1) = random_floor E 7150 w in
      (send (GetCategories 100 offset) w1)\<lparr>pending := pending w1 @ [AwaitCategories 100 offset]\<rparr>)"

text \<open>
  After the \<^verbatim>\<open>await\<close> of line 34, when the request has settled: a sample of
  \<open>NUM_CATEGORIES\<close> of the candidates, and \<^verbatim>\<open>getCategory\<close> on the ids of the sample.
  \<open>selected_ids\<close> is the argument passed to \<^verbatim>\<open>getCategory\<close> on line 40, for the random
  draws from the \<open>k\<close>-th on.
\<close>

definition selected_ids :: "env \<Rightarrow> nat \<Rightarrow> raw_category list \<Rightarrow> int list" where
  "selected_ids E k data = map cat_id (fst (sampleSize E k data NUM_CATEGORIES))"

definition getCategoryIds_resumed :: "env \<Rightarrow> nat \<Rightarrow> nat \<Rightarrow> nat \<Rightarrow> page \<Rightarrow> page" where
  "getCategoryIds_resumed E k cnt offset w =
     (let response = categories_api E (net_log w) cnt offset;
          w1 = arrived (GetCategories cnt offset) w
      in case response of
           None \<Rightarrow> promise_settled (Throw RequestFailed) (finished k w1)
         | Some data \<Rightarrow>
             (let (randomArray, n) = sampleSize E (random_calls w1) data NUM_CATEGORIES in
              getCategory_loop k (map cat_id randomArray) (w1\<lparr>random_calls := n\<rparr>)))"

subsection \<open>setupAndStart and the order of events\<close>

text \<open>
  The click on the button runs \<^verbatim>\<open>setupAndStart\<close>: empty the board and the array, show
  the loading view and call \<^verbatim>\<open>getCategoryIds\<close>, which runs up to its first \<^verbatim>\<open>await\<close>.
  The button stays clickable while a start is waiting.
\<close>

definition setupAndStart :: "env \<Rightarrow> page \<Rightarrow> page" where
  "setupAndStart E w = getCategoryIds E (showLoadingView (w\<lparr>board := [], categories := []\<rparr>))"

text \<open>
  The request of the start waiting at position \<open>k\<close> settles, and the start is resumed
  where it waits. Nothing happens when no start waits at that position.
\<close>

definition resume :: "env \<Rightarrow> nat \<Rightarrow> page \<Rightarrow> page" where
  "resume E k w =
     (case js_index (pending w) k of
        None \<Rightarrow> w
      | Some (AwaitCategories cnt offset) \<Rightarrow> getCategoryIds_resumed E k cnt offset w
      | Some (AwaitCategory i rest) \<Rightarrow> getCategory_resumed E k i rest w)"

text \<open>
  What happens to the page while starts are under way, in the order in which it happens:
  the button is clicked, or the request of a waiting start settles. Each handler runs to
  its end before the next one begins. A cell can be clicked only while the board has a
  table body, that is from the end of a start that resolved to the next click on the
  button; the clicks on cells are the sequences \<open>clicks\<close> below.
\<close>

datatype occurrence = ButtonClicked | RequestSettled nat

fun run :: "env \<Rightarrow> occurrence list \<Rightarrow> page \<Rightarrow> page" where
  "run E [] w = w"
| "run E (ButtonClicked # os) w = run E os (setupAndStart E w)"
| "run E (RequestSettled k # os) w = run E os (resume E k w)"

section \<open>Vocabulary of the statements\<close>

text \<open>
  The clue at an address, and whether an address is one: a category index below the
  number of categories and a clue index below the number of clues of that category.
\<close>

definition clue_at :: "category list \<Rightarrow> nat \<Rightarrow> nat \<Rightarrow> clue" where
  "clue_at cats i j = clues (cats ! i) ! j"

definition valid_address :: "category list \<Rightarrow> nat \<Rightarrow> nat \<Rightarrow> bool" where
  "valid_address cats i j = (i < length cats \<and> j < length (clues (cats ! i)))"

text \<open>
  A sequence of clicks, each handled by \<^verbatim>\<open>handleClick\<close>; a handler that throws ends
  that click only, the next one is handled as usual. \<open>repeat_click\<close> clicks the same
  cell \<open>n\<close> times, the cell keeping what the previous click wrote into it.
\<close>

fun clicks :: "event list \<Rightarrow> category list \<Rightarrow> category list" where
  "clicks [] cats = cats"
| "clicks (e # es) cats = clicks es (snd (snd (handleClick e cats)))"

fun repeat_click :: "nat \<Rightarrow> event \<Rightarrow> category list \<Rightarrow> td \<times> category list" where
  "repeat_click 0 e cats = (target e, cats)"
| "repeat_click (Suc n) e cats =
     (case handleClick e cats of (r, clicked, cats') \<Rightarrow> repeat_click n (e\<lparr>target := clicked\<rparr>) cats')"

text \<open>The order of the three values of \<^verbatim>\<open>showing\<close>, and the step forward.\<close>

fun rank :: "showing \<Rightarrow> nat" where
  "rank Null = 0" | "rank Question = 1" | "rank Answer = 2"

fun next_showing :: "showing \<Rightarrow> showing" where
  "next_showing Null = Question" | "next_showing Question = Answer" | "next_showing Answer = Answer"

text \<open>
  The traffic of ids fetched one after the other: each request is sent when the one
  before it has settled. A start that runs alone is the click on the button followed by
  \<open>n\<close> of its requests settling.
\<close>

fun exchange :: "int list \<Rightarrow> traffic list" where
  "exchange [] = []"
| "exchange (i # ids) = Sent (GetCategory i) # Settled (GetCategory i) # exchange ids"

text \<open>
  The page \<open>w'\<close> is the page \<open>w\<close> after the categories \<open>cs\<close> were pushed, the traffic
  \<open>l\<close> was added, and the promises \<open>ss\<close> settled, with the starts \<open>ps\<close> waiting.
\<close>

definition advanced :: "page \<Rightarrow> category list \<Rightarrow> traffic list \<Rightarrow> await list \<Rightarrow> completion list \<Rightarrow> page \<Rightarrow> bool" where
  "advanced w cs l ps ss w' =
     (categories w' = categories w @ cs \<and> net_log w' = net_log w @ l \<and> pending w' = ps \<and>
      settled w' = settled w @ ss)"

text \<open>
  After the traffic \<open>h\<close>, the first \<open>m\<close> of the ids, fetched one after the other, were
  answered and gave the categories \<open>cs\<close>; and the fetch of the id at position \<open>m\<close>
  fails with the error \<open>e\<close>: its request fails, or its data has no clue.
\<close>

definition fetched :: "env \<Rightarrow> traffic list \<Rightarrow> int list \<Rightarrow> nat \<Rightarrow> category list \<Rightarrow> bool" where
  "fetched E h ids m cs =
     (m \<le> length ids \<and> length cs = m \<and>
      (\<forall>j<m. \<exists>d. category_api E (h @ exchange (take j ids) @ [Sent (GetCategory (ids ! j))]) (ids ! j) = Some d \<and>
                   category_of_data d = Inr (cs ! j)))"

definition fails_at :: "env \<Rightarrow> traffic list \<Rightarrow> int list \<Rightarrow> nat \<Rightarrow> error \<Rightarrow> bool" where
  "fails_at E h ids m e =
     (case category_api E (h @ exchange (take m ids) @ [Sent (GetCategory (ids ! m))]) (ids ! m) of
        None \<Rightarrow> e = RequestFailed
      | Some d \<Rightarrow> category_of_data d = Inl e)"

definition alone :: "nat \<Rightarrow> occurrence list" where
  "alone n = ButtonClicked # replicate n (RequestSettled 0)"

section \<open>Concrete services and pages\<close>

text \<open>
  A service with eight candidates and ten clues per category, and variants of it: one
  that returns two candidates only, one that returns two candidates and three clues per
  category, one whose category requests fail once the traffic has four entries (the
  second category request of a start that runs alone), and one whose category requests
  fail once it has sixteen (after a first start has fetched all its categories). The
  draws are \<open>2, 5, 8, ...\<close>.
\<close>

definition five_clues :: "raw_clue list" where
  "five_clues =
     map (\<lambda>(q, a). \<lparr>raw_question = q, raw_answer = a, raw_other = [(''airdate'', ''1990'')]\<rparr>)
       [(''2+2'', ''4''), (''1+1'', ''2''), (''3+3'', ''6''), (''2+1'', ''3''), (''4+4'', ''8'')]"

definition ten_clues :: "raw_clue list" where
  "ten_clues = five_clues @ five_clues"

definition eight_candidates :: "raw_category list" where
  "eight_candidates = map (\<lambda>i. \<lparr>cat_id = i, cat_other = [(''clues_count'', ''10'')]\<rparr>) [10, 11, 12, 13, 14, 15, 16, 17]"

definition example_title :: "int \<Rightarrow> string" where
  "example_title i = ''T'' @ replicate (nat (i - 10)) CHR ''x''"

definition env_ok :: env where
  "env_ok = \<lparr>categories_api = (\<lambda>h c off. Some eight_candidates),
             category_api = (\<lambda>h i. Some \<lparr>raw_title = example_title i, raw_clues = ten_clues\<rparr>),
             draw = (\<lambda>k. 3 * k + 2)\<rparr>"

definition env_few :: env where
  "env_few = env_ok\<lparr>categories_api := (\<lambda>h c off. Some (take 2 eight_candidates))\<rparr>"

definition env_short :: env where
  "env_short = env_few\<lparr>category_api := (\<lambda>h i. Some \<lparr>raw_title = example_title i, raw_clues = take 3 ten_clues\<rparr>)\<rparr>"

definition env_fail :: env where
  "env_fail = env_ok\<lparr>category_api :=
     (\<lambda>h i. if length h < 4 then Some \<lparr>raw_title = example_title i, raw_clues = ten_clues\<rparr> else None)\<rparr>"

definition env_late :: env where
  "env_late = env_ok\<lparr>category_api :=
     (\<lambda>h i. if length h < 16 then Some \<lparr>raw_title = example_title i, raw_clues = ten_clues\<rparr> else None)\<rparr>"

text \<open>
  Two starts that overlap: the button is clicked again while the first start waits for
  its candidates, then the requests settle, those of the first start first.
\<close>

definition overlapped :: "occurrence list" where
  "overlapped = ButtonClicked # ButtonClicked # replicate 14 (RequestSettled 0)"

text \<open>
  The page before the first start, a board of two categories in the middle of a game
  with the click on the cell of a category and a clue, and the page of that game.
\<close>

definition page0 :: page where
  "page0 = \<lparr>categories = [], board = [], spinner_display = ''none'', btn_text = ''START'',
            alerts = [], net_log = [], random_calls = 0, pending = [], settled = []\<rparr>"

definition two_categories :: "category list" where
  "two_categories =
     [\<lparr>title = ''Math'',
       clues = [\<lparr>question = ''2+2'', answer = ''4'', showing = Null\<rparr>,
                \<lparr>question = ''1+1'', answer = ''2'', showing = Question\<rparr>]\<rparr>,
      \<lparr>title = ''Literature'',
       clues = [\<lparr>question = ''Hamlet Author'', answer = ''Shakespeare'', showing = Answer\<rparr>,
                \<lparr>question = ''Bell Jar Author'', answer = ''Plath'', showing = Null\<rparr>]\<rparr>]"

definition cell :: "nat \<Rightarrow> nat \<Rightarrow> event" where
  "cell categoryId clueId =
     \<lparr>parentElement_id = clueId, target = \<lparr>data_category = categoryId, innerText = ''?'', classList = []\<rparr>\<rparr>"

definition page_old :: page where
  "page_old = \<lparr>categories = two_categories, board = [], spinner_display = ''none'', btn_text = ''RESTART'',
            alerts = [], net_log = [], random_calls = 0, pending = [], settled = []\<rparr>"

section \<open>The library functions\<close>

text \<open>
  The first chunk is the first \<open>n\<close> elements, when there is one.
\<close>

lemma chunk_first: "js_index (chunk xs n) 0 = (if xs = [] \<or> n < 1 then None else Some (take n xs))"
  by (simp add: js_index_def)

declare chunk.simps [simp del] shuffleSelf.simps [simp del]

text \<open>
  The random position drawn by \<^verbatim>\<open>shuffleSelf\<close> lies between the current index and
  the end of the array, so each step swaps two elements of the array: the result is a
  prefix of a permutation of the array, and each step makes one draw.
\<close>

lemma baseRandom_range:
  assumes "index < length array"
  shows "index \<le> baseRandom E k index (length array - 1)"
    and "baseRandom E k index (length array - 1) < length array"
proof -
  have eq: "length array - 1 - index + 1 = length array - index"
    using assms by simp
  show "index \<le> baseRandom E k index (length array - 1)"
    by (simp add: baseRandom_def)
  have "draw E k mod (length array - index) < length array - index"
    using assms by simp
  then show "baseRandom E k index (length array - 1) < length array"
    unfolding baseRandom_def eq by simp
qed

lemma shuffleSelf_perm:
  "size' \<le> length array \<Longrightarrow>
   \<exists>ys. mset ys = mset array \<and> fst (shuffleSelf E size' index k array) = take size' ys"
proof (induction E size' index k array rule: shuffleSelf.induct)
  case (1 E size' index k array)
  show ?case
  proof (cases "index < size'")
    case False
    then show ?thesis by (auto simp: shuffleSelf.simps [of E size' index k array])
  next
    case True
    define rand where "rand = baseRandom E k index (length array - 1)"
    define array2 where "array2 = array[rand := array ! index, index := array ! rand]"
    have il: "index < length array" using True "1.prems" by simp
    have rl: "rand < length array" unfolding rand_def using baseRandom_range(2) [OF il] .
    have m: "mset array2 = mset array"
      unfolding array2_def using mset_swap [OF il rl] .
    have l: "size' \<le> length array2" using "1.prems" by (simp add: array2_def)
    have step: "shuffleSelf E size' index k array = shuffleSelf E size' (Suc index) (Suc k) array2"
      using True by (simp add: shuffleSelf.simps [of E size' index k array] Let_def rand_def array2_def)
    have "\<exists>ys. mset ys = mset array2 \<and>
            fst (shuffleSelf E size' (Suc index) (Suc k) array2) = take size' ys"
      using "1.IH" [OF True refl refl refl refl] l unfolding array2_def rand_def by simp
    then show ?thesis unfolding step m .
  qed
qed

lemma shuffleSelf_draws:
  "snd (shuffleSelf E size' index k array) = k + (size' - index)"
proof (induction E size' index k array rule: shuffleSelf.induct)
  case (1 E size' index k array)
  show ?case
  proof (cases "index < size'")
    case False
    then show ?thesis by (simp add: shuffleSelf.simps [of E size' index k array])
  next
    case True
    then show ?thesis
      using "1.IH" [OF True refl refl refl refl]
      by (simp add: shuffleSelf.simps [of E size' index k array] Let_def)
  qed
qed

lemma sampleSize_perm:
  "\<exists>ys. mset ys = mset array \<and> fst (sampleSize E k array n) = take (min n (length array)) ys"
  unfolding sampleSize_def by (rule shuffleSelf_perm) simp

lemma sampleSize_length: "length (fst (sampleSize E k array n)) = min n (length array)"
proof -
  obtain ys where ys: "mset ys = mset array" "fst (sampleSize E k array n) = take (min n (length array)) ys"
    using sampleSize_perm by blast
  have "length ys = length array" using ys(1) by (rule mset_eq_length)
  then show ?thesis using ys(2) by simp
qed

lemma sampleSize_draws: "snd (sampleSize E k array n) = k + min n (length array)"
  by (simp add: sampleSize_def shuffleSelf_draws)

lemma sampleSize_map_subset: "mset (map f (fst (sampleSize E k array n))) \<subseteq># mset (map f array)"
proof -
  obtain ys where ys: "mset ys = mset array" "fst (sampleSize E k array n) = take (min n (length array)) ys"
    using sampleSize_perm by blast
  have "mset (take (min n (length array)) ys) \<subseteq># mset ys"
    by (metis append_take_drop_id mset_append mset_subset_eq_add_left)
  then have "mset (fst (sampleSize E k array n)) \<subseteq># mset array"
    using ys by simp
  then show ?thesis
    by (metis image_mset_subseteq_mono mset_map)
qed

lemma sampleSize_map_distinct:
  assumes "distinct (map f array)"
  shows "distinct (map f (fst (sampleSize E k array n)))"
proof -
  obtain ys where ys: "mset ys = mset array" "fst (sampleSize E k array n) = take (min n (length array)) ys"
    using sampleSize_perm by blast
  have "mset (map f ys) = mset (map f array)" using ys(1) by (metis mset_map)
  then have "distinct (map f ys)" using assms by (metis mset_eq_imp_distinct_iff)
  then have "distinct (take (min n (length array)) (map f ys))" by (rule distinct_take)
  then show ?thesis by (simp add: ys(2) take_map)
qed

section \<open>The clicks\<close>

subsection \<open>Writing one showing field\<close>

lemma set_showing_length [simp]: "length (set_showing cats i j v) = length cats"
  by (simp add: set_showing_def)

lemma set_showing_nth:
  "i' < length cats \<Longrightarrow> set_showing cats i j v ! i' =
     (if i' = i then (cats ! i)\<lparr>clues := (clues (cats ! i))[j := (clues (cats ! i) ! j)\<lparr>showing := v\<rparr>]\<rparr> else cats ! i')"
  by (simp add: set_showing_def nth_list_update)

lemma set_showing_title: "i' < length cats \<Longrightarrow> title (set_showing cats i j v ! i') = title (cats ! i')"
  by (simp add: set_showing_nth)

lemma set_showing_clues_length: "i' < length cats \<Longrightarrow> length (clues (set_showing cats i j v ! i')) = length (clues (cats ! i'))"
  by (simp add: set_showing_nth)

lemma set_showing_clue_at:
  "valid_address cats i' j' \<Longrightarrow> clue_at (set_showing cats i j v) i' j' =
     (if i' = i \<and> j' = j then (clue_at cats i j)\<lparr>showing := v\<rparr> else clue_at cats i' j')"
  by (auto simp: set_showing_nth clue_at_def valid_address_def nth_list_update)

lemma valid_address_set_showing:
  "valid_address (set_showing cats i j v) i' j' = valid_address cats i' j'"
  by (auto simp: valid_address_def set_showing_clues_length)

lemma set_showing_shape:
  "map (\<lambda>c. length (clues c)) (set_showing cats i j v) = map (\<lambda>c. length (clues c)) cats"
  by (simp add: list_eq_iff_nth_eq set_showing_clues_length)

subsection \<open>One click\<close>

lemma handleClick_valid:
  assumes "valid_address cats (data_category (target e)) (parentElement_id e)"
  shows "handleClick e cats =
    (let c = clue_at cats (data_category (target e)) (parentElement_id e) in
     case showing c of
       Null \<Rightarrow> (Normal, (target e)\<lparr>innerText := question c\<rparr>, set_showing cats (data_category (target e)) (parentElement_id e) Question)
     | Question \<Rightarrow> (Normal, (target e)\<lparr>innerText := answer c, classList := ''answered''\<rparr>, set_showing cats (data_category (target e)) (parentElement_id e) Answer)
     | Answer \<Rightarrow> (Normal, target e, cats))"
  using assms
  by (cases "showing (clue_at cats (data_category (target e)) (parentElement_id e))")
     (simp_all add: handleClick_def js_index_def valid_address_def clue_at_def Let_def)

lemma handleClick_invalid:
  assumes "\<not> valid_address cats (data_category (target e)) (parentElement_id e)"
  shows "handleClick e cats = (Throw TypeError, target e, cats)"
  using assms by (auto simp: handleClick_def js_index_def valid_address_def Let_def)

lemma handleClick_cases:
  "snd (snd (handleClick e cats)) = cats \<or>
   (valid_address cats (data_category (target e)) (parentElement_id e) \<and>
    (\<exists>v. rank (showing (clue_at cats (data_category (target e)) (parentElement_id e))) < rank v \<and>
     snd (snd (handleClick e cats)) = set_showing cats (data_category (target e)) (parentElement_id e) v))"
proof (cases "valid_address cats (data_category (target e)) (parentElement_id e)")
  case True
  show ?thesis
    by (cases "showing (clue_at cats (data_category (target e)) (parentElement_id e))")
       (auto simp: handleClick_valid [OF True] Let_def True intro: exI [of _ Question] exI [of _ Answer])
next
  case False
  then show ?thesis by (simp add: handleClick_invalid)
qed

lemma handleClick_step:
  assumes "valid_address cats i j"
  shows "valid_address (snd (snd (handleClick e cats))) i j \<and>
         question (clue_at (snd (snd (handleClick e cats))) i j) = question (clue_at cats i j) \<and>
         answer (clue_at (snd (snd (handleClick e cats))) i j) = answer (clue_at cats i j) \<and>
         (showing (clue_at (snd (snd (handleClick e cats))) i j) = showing (clue_at cats i j) \<or>
          (data_category (target e) = i \<and> parentElement_id e = j \<and>
           showing (clue_at (snd (snd (handleClick e cats))) i j) = next_showing (showing (clue_at cats i j))))"
proof (cases "valid_address cats (data_category (target e)) (parentElement_id e)")
  case False
  then show ?thesis using assms by (simp add: handleClick_invalid)
next
  case True
  have va: "\<And>v. valid_address (set_showing cats (data_category (target e)) (parentElement_id e) v) i j"
    using assms by (simp add: valid_address_set_showing)
  show ?thesis
    using assms va
    by (cases "showing (clue_at cats (data_category (target e)) (parentElement_id e))")
       (auto simp: handleClick_valid [OF True] Let_def set_showing_clue_at)
qed

text \<open>
  Claim C2. At a valid address, \<^verbatim>\<open>handleClick\<close> on a clue showing \<^verbatim>\<open>null\<close> puts
  the question into the clicked cell and sets \<^verbatim>\<open>showing\<close> to \<^verbatim>\<open>'question'\<close>; on a
  clue showing \<^verbatim>\<open>'question'\<close> it puts the answer into the cell and sets \<^verbatim>\<open>showing\<close>
  to \<^verbatim>\<open>'answer'\<close>; on a clue showing \<^verbatim>\<open>'answer'\<close> it changes neither the cell nor
  the categories.
\<close>

theorem handleClick_three_state_law:
  assumes "valid_address cats i j" and "data_category (target e) = i" and "parentElement_id e = j"
  shows "(showing (clue_at cats i j) = Null \<longrightarrow>
            fst (handleClick e cats) = Normal \<and>
            fst (snd (handleClick e cats)) = (target e)\<lparr>innerText := question (clue_at cats i j)\<rparr> \<and>
            showing (clue_at (snd (snd (handleClick e cats))) i j) = Question) \<and>
         (showing (clue_at cats i j) = Question \<longrightarrow>
            fst (handleClick e cats) = Normal \<and>
            fst (snd (handleClick e cats)) =
              (target e)\<lparr>innerText := answer (clue_at cats i j), classList := ''answered''\<rparr> \<and>
            showing (clue_at (snd (snd (handleClick e cats))) i j) = Answer) \<and>
         (showing (clue_at cats i j) = Answer \<longrightarrow>
            handleClick e cats = (Normal, target e, cats))"
proof -
  have v: "valid_address cats (data_category (target e)) (parentElement_id e)"
    using assms by simp
  show ?thesis
    using assms(1) unfolding handleClick_valid [OF v] assms(2,3)
    by (cases "showing (clue_at cats i j)") (simp_all add: set_showing_clue_at)
qed

text \<open>
  Claim C4, as amended. With a category index at or beyond the number of categories, or
  a clue index at or beyond the number of clues of the addressed category,
  \<^verbatim>\<open>handleClick\<close> throws a TypeError before it writes anything: the clicked cell and
  the categories are unchanged.
\<close>

theorem handleClick_out_of_range_throws:
  assumes "length cats \<le> data_category (target e) \<or>
           (data_category (target e) < length cats \<and>
            length (clues (cats ! data_category (target e))) \<le> parentElement_id e)"
  shows "handleClick e cats = (Throw TypeError, target e, cats)"
  using assms by (intro handleClick_invalid) (auto simp: valid_address_def)

text \<open>
  Claim C9. At a valid address, \<^verbatim>\<open>handleClick\<close> keeps the number of categories, every
  title, the number of clues of every category, the question and the answer of every
  clue, and every clue but the addressed one as a whole: at most the \<^verbatim>\<open>showing\<close> of
  the addressed clue changes.
\<close>

theorem handleClick_frame:
  assumes "valid_address cats (data_category (target e)) (parentElement_id e)"
    and "cats' = snd (snd (handleClick e cats))"
  shows "length cats' = length cats \<and>
         (\<forall>i<length cats.
            title (cats' ! i) = title (cats ! i) \<and>
            length (clues (cats' ! i)) = length (clues (cats ! i)) \<and>
            (\<forall>j<length (clues (cats ! i)).
               question (clue_at cats' i j) = question (clue_at cats i j) \<and>
               answer (clue_at cats' i j) = answer (clue_at cats i j) \<and>
               ((i, j) \<noteq> (data_category (target e), parentElement_id e) \<longrightarrow>
                  clue_at cats' i j = clue_at cats i j)))"
proof -
  let ?i = "data_category (target e)" and ?j = "parentElement_id e"
  have "cats' = cats \<or> (\<exists>v. cats' = set_showing cats ?i ?j v)"
    using handleClick_cases [of e cats] assms(2) by auto
  then show ?thesis
  proof
    assume "cats' = cats" then show ?thesis by simp
  next
    assume "\<exists>v. cats' = set_showing cats ?i ?j v"
    then obtain v where c: "cats' = set_showing cats ?i ?j v" ..
    show ?thesis
      unfolding c
      by (auto simp: set_showing_title set_showing_clues_length set_showing_clue_at valid_address_def)
  qed
qed

subsection \<open>Sequences of clicks\<close>

lemma next_showing_rank: "rank s \<le> rank (next_showing s)"
  by (cases s) simp_all

lemma rank_Answer: "rank Answer \<le> rank s \<Longrightarrow> s = Answer"
  by (cases s) simp_all

lemma clicks_monotone:
  "valid_address cats i j \<Longrightarrow>
     valid_address (clicks es cats) i j \<and>
     rank (showing (clue_at cats i j)) \<le> rank (showing (clue_at (clicks es cats) i j))"
proof (induction es arbitrary: cats)
  case Nil
  then show ?case by simp
next
  case (Cons e es)
  let ?c1 = "snd (snd (handleClick e cats))"
  from handleClick_step [OF Cons.prems, of e]
  have v1: "valid_address ?c1 i j"
    and r1: "rank (showing (clue_at cats i j)) \<le> rank (showing (clue_at ?c1 i j))"
    using next_showing_rank [of "showing (clue_at cats i j)"] by auto
  from Cons.IH [OF v1] r1 show ?case by auto
qed

lemma clicks_shape:
  "map (\<lambda>c. length (clues c)) (clicks es cats) = map (\<lambda>c. length (clues c)) cats"
proof (induction es arbitrary: cats)
  case Nil
  show ?case by simp
next
  case (Cons e es)
  have "map (\<lambda>c. length (clues c)) (snd (snd (handleClick e cats))) = map (\<lambda>c. length (clues c)) cats"
    using handleClick_cases [of e cats] by (auto simp: set_showing_shape)
  then show ?case using Cons.IH by simp
qed

lemma clicks_length: "length (clicks es cats) = length cats"
  using clicks_shape [of es cats] by (metis length_map)

lemma clicks_clues_length:
  assumes "i < length cats"
  shows "length (clues (clicks es cats ! i)) = length (clues (cats ! i))"
proof -
  have "map (\<lambda>c. length (clues c)) (clicks es cats) ! i = map (\<lambda>c. length (clues c)) cats ! i"
    by (simp only: clicks_shape)
  then show ?thesis using assms by (simp add: clicks_length)
qed

text \<open>
  Claim C8. One call of \<^verbatim>\<open>handleClick\<close>, whatever was clicked, leaves the
  \<^verbatim>\<open>showing\<close> of a clue as it is or moves it one step forward, from \<^verbatim>\<open>null\<close> to
  \<^verbatim>\<open>'question'\<close> or from \<^verbatim>\<open>'question'\<close> to \<^verbatim>\<open>'answer'\<close>. Over any sequence of
  clicks it never moves backward, and a clue showing \<^verbatim>\<open>'answer'\<close> shows it for ever.
\<close>

theorem showing_only_moves_forward:
  assumes "valid_address cats i j"
  shows "(showing (clue_at (snd (snd (handleClick e cats))) i j) = showing (clue_at cats i j) \<or>
          showing (clue_at (snd (snd (handleClick e cats))) i j) = next_showing (showing (clue_at cats i j))) \<and>
         valid_address (clicks es cats) i j \<and>
         rank (showing (clue_at cats i j)) \<le> rank (showing (clue_at (clicks es cats) i j)) \<and>
         (showing (clue_at cats i j) = Answer \<longrightarrow> showing (clue_at (clicks es cats) i j) = Answer)"
  using handleClick_step [OF assms, of e] clicks_monotone [OF assms, of es]
    rank_Answer [of "showing (clue_at (clicks es cats) i j)"]
  by auto

lemma repeat_click_Answer:
  "valid_address cats (data_category (target e)) (parentElement_id e) \<Longrightarrow>
   showing (clue_at cats (data_category (target e)) (parentElement_id e)) = Answer \<Longrightarrow>
   repeat_click n e cats = (target e, cats)"
proof (induction n)
  case 0
  then show ?case by simp
next
  case (Suc n)
  then show ?case by (simp add: handleClick_valid)
qed

text \<open>
  Claim C10. From a clue showing \<^verbatim>\<open>null\<close> at a valid address, clicking its cell
  \<open>n\<close> times with \<open>n\<close> at least 2 leaves the cell and the categories as two clicks
  do, with the clue showing \<^verbatim>\<open>'answer'\<close>.
\<close>

theorem repeat_click_saturates:
  assumes "valid_address cats (data_category (target e)) (parentElement_id e)"
    and "showing (clue_at cats (data_category (target e)) (parentElement_id e)) = Null"
    and "2 \<le> n"
  shows "repeat_click n e cats = repeat_click 2 e cats \<and>
         showing (clue_at (snd (repeat_click n e cats)) (data_category (target e)) (parentElement_id e)) = Answer"
proof -
  let ?i = "data_category (target e)" and ?j = "parentElement_id e"
  let ?c = "clue_at cats ?i ?j"
  let ?e1 = "e\<lparr>target := (target e)\<lparr>innerText := question ?c\<rparr>\<rparr>"
  let ?c1 = "set_showing cats ?i ?j Question"
  let ?e2 = "e\<lparr>target := (target e)\<lparr>innerText := answer ?c, classList := ''answered''\<rparr>\<rparr>"
  let ?c2 = "set_showing ?c1 ?i ?j Answer"
  have one: "\<And>m. repeat_click (Suc m) e cats = repeat_click m ?e1 ?c1"
    using assms(1,2) by (simp add: handleClick_valid)
  have v1: "valid_address ?c1 (data_category (target ?e1)) (parentElement_id ?e1)"
    using assms(1) by (simp add: valid_address_set_showing)
  have s1: "clue_at ?c1 ?i ?j = ?c\<lparr>showing := Question\<rparr>"
    using assms(1) by (simp add: set_showing_clue_at)
  have two: "\<And>m. repeat_click (Suc m) ?e1 ?c1 = repeat_click m ?e2 ?c2"
    using v1 s1 by (simp add: handleClick_valid)
  have v2: "valid_address ?c2 (data_category (target ?e2)) (parentElement_id ?e2)"
    using v1 by (simp add: valid_address_set_showing)
  have s2: "showing (clue_at ?c2 (data_category (target ?e2)) (parentElement_id ?e2)) = Answer"
    using v1 by (simp add: set_showing_clue_at)
  have sat: "\<And>m. repeat_click m ?e2 ?c2 = (target ?e2, ?c2)"
    using repeat_click_Answer [OF v2 s2] .
  obtain m where n: "n = Suc (Suc m)"
    using assms(3) by (metis Suc_le_D numeral_2_eq_2 Suc_le_mono)
  have "repeat_click n e cats = (target ?e2, ?c2)"
    unfolding n one two sat ..
  moreover have "repeat_click 2 e cats = (target ?e2, ?c2)"
    unfolding numeral_2_eq_2 one two sat ..
  ultimately show ?thesis using s2 by simp
qed

section \<open>The acquisition\<close>

subsection \<open>One category\<close>

lemma category_of_data_eq:
  "category_of_data data =
     (if raw_clues data = [] then Inl TypeError
      else Inr \<lparr>title = raw_title data, clues = map project_clue (take NUM_CLUES (raw_clues data))\<rparr>)"
  by (simp add: category_of_data_def chunk_first NUM_CLUES_def)

lemma category_of_data_length:
  "category_of_data d = Inr c \<Longrightarrow> length (clues c) = min NUM_CLUES (length (raw_clues d))"
  by (auto simp: category_of_data_eq split: if_splits)


text \<open>
  Claim C5, as amended. From the data of a category with at least one clue,
  \<^verbatim>\<open>getCategory\<close> builds the category with the data's title and the first
  \<open>NUM_CLUES\<close> clues of the data, in their order, each reduced to its question and its
  answer with \<^verbatim>\<open>showing\<close> set to \<^verbatim>\<open>null\<close>; the result depends on nothing else (no
  random number is drawn). Data with no clue at all yields no category: reading the
  first chunk gives \<^verbatim>\<open>undefined\<close> and the call throws a TypeError.
\<close>

theorem category_of_data_first_clues:
  "category_of_data data =
     (if raw_clues data = [] then Inl TypeError
      else Inr \<lparr>title = raw_title data,
                clues = map (\<lambda>c. \<lparr>question = raw_question c, answer = raw_answer c, showing = Null\<rparr>)
                          (take NUM_CLUES (raw_clues data))\<rparr>)"
proof -
  have "project_clue = (\<lambda>c. \<lparr>question = raw_question c, answer = raw_answer c, showing = Null\<rparr>)"
    by (rule ext) (simp add: project_clue_def)
  then show ?thesis by (simp add: category_of_data_eq)
qed

subsection \<open>Settling a promise\<close>

lemma fillTable_cases:
  "(\<exists>e. fillTable w = (Throw e, w)) \<or>
   (\<exists>topRow. fillTable w = (Normal, w\<lparr>board := board w @ [Thead topRow, Tbody body_rows]\<rparr>))"
proof (cases "head_cells (categories w) [0..<NUM_CATEGORIES]")
  case (Inl e)
  then show ?thesis by (simp add: fillTable_def)
next
  case (Inr ts)
  then have "fillTable w = (Normal, w\<lparr>board := board w @ [Thead ts, Tbody body_rows]\<rparr>)"
    by (simp add: fillTable_def)
  then show ?thesis by blast
qed

lemma promise_settled_advanced: "advanced w [] [] (pending w) [r] (promise_settled r w)"
proof (cases r)
  case Normal
  show ?thesis
    using fillTable_cases [of "w\<lparr>settled := settled w @ [Normal]\<rparr>"]
    by (auto simp: Normal promise_settled_def advanced_def alert_def hideLoadingView_def)
next
  case (Throw e)
  then show ?thesis by (simp add: promise_settled_def advanced_def alert_def)
qed

lemma promise_settled_Throw:
  "board (promise_settled (Throw e) w) = board w"
  "alerts (promise_settled (Throw e) w) = alerts w @ [failure_notice]"
  by (simp_all add: promise_settled_def alert_def)

lemma advanced_trans:
  "advanced w cs l ps ss w1 \<Longrightarrow> advanced w1 cs' l' ps' ss' w' \<Longrightarrow>
   advanced w (cs @ cs') (l @ l') ps' (ss @ ss') w'"
  by (simp add: advanced_def)

lemma run_idle: "pending w = [] \<Longrightarrow> run E (replicate n (RequestSettled 0)) w = w"
  by (induction n) (simp_all add: resume_def js_index_def)

lemma settled_then_idle:
  assumes "pending w = []"
  shows "run E (replicate n (RequestSettled 0)) (promise_settled r w) = promise_settled r w"
proof -
  have "pending (promise_settled r w) = []"
    using promise_settled_advanced [of w r] assms by (simp add: advanced_def)
  then show ?thesis by (rule run_idle)
qed

subsection \<open>The loop of getCategory\<close>

lemma fetched_0: "fetched E h ids 0 []"
  by (simp add: fetched_def)

lemma fetched_Suc:
  assumes "category_api E (h @ [Sent (GetCategory i)]) i = Some d" and "category_of_data d = Inr c"
    and "fetched E (h @ [Sent (GetCategory i), Settled (GetCategory i)]) rest m cs"
  shows "fetched E h (i # rest) (Suc m) (c # cs)"
  unfolding fetched_def
proof (intro conjI allI impI)
  show "Suc m \<le> length (i # rest)" "length (c # cs) = Suc m"
    using assms(3) by (simp_all add: fetched_def)
  fix j assume j: "j < Suc m"
  show "\<exists>d. category_api E (h @ exchange (take j (i # rest)) @ [Sent (GetCategory ((i # rest) ! j))]) ((i # rest) ! j) = Some d \<and>
            category_of_data d = Inr ((c # cs) ! j)"
  proof (cases j)
    case 0
    then show ?thesis using assms(1,2) by simp
  next
    case (Suc j')
    then have "j' < m" using j by simp
    then show ?thesis using assms(3) Suc by (simp add: fetched_def)
  qed
qed

lemma fails_at_0:
  "fails_at E h (i # rest) 0 e =
     (case category_api E (h @ [Sent (GetCategory i)]) i of
        None \<Rightarrow> e = RequestFailed | Some d \<Rightarrow> category_of_data d = Inl e)"
  by (simp add: fails_at_def)

lemma fails_at_Suc:
  "fails_at E (h @ [Sent (GetCategory i), Settled (GetCategory i)]) rest m e \<Longrightarrow>
   fails_at E h (i # rest) (Suc m) e"
  by (simp add: fails_at_def)

text \<open>One pass through the loop, for a start that is the only one waiting.\<close>

lemma loop_end:
  assumes "length (pending w) = 1"
  shows "getCategory_loop 0 [] w = promise_settled Normal (finished 0 w)"
    and "advanced w [] [] [] [] (finished 0 w)"
  using assms by (simp_all add: getCategory_loop_def finished_def advanced_def)

lemma loop_next:
  assumes "length (pending w) = 1"
  shows "advanced w [] [Sent (GetCategory i)] [AwaitCategory i rest] [] (getCategory_loop 0 (i # rest) w)"
    and "board (getCategory_loop 0 (i # rest) w) = board w"
    and "alerts (getCategory_loop 0 (i # rest) w) = alerts w"
proof -
  obtain x where "pending w = [x]"
    using assms by (cases "pending w") simp_all
  then show "advanced w [] [Sent (GetCategory i)] [AwaitCategory i rest] [] (getCategory_loop 0 (i # rest) w)"
    and "board (getCategory_loop 0 (i # rest) w) = board w"
    and "alerts (getCategory_loop 0 (i # rest) w) = alerts w"
    by (simp_all add: getCategory_loop_def send_def advanced_def)
qed

lemma resumed_in_loop:
  assumes "pending w = [AwaitCategory i rest]"
  shows "resume E 0 w =
     (case category_api E (net_log w) i of
        None \<Rightarrow> promise_settled (Throw RequestFailed) (finished 0 (arrived (GetCategory i) w))
      | Some d \<Rightarrow>
          (case category_of_data d of
             Inl e \<Rightarrow> promise_settled (Throw e) (finished 0 (arrived (GetCategory i) w))
           | Inr c \<Rightarrow> getCategory_loop 0 rest
                       ((arrived (GetCategory i) w)\<lparr>categories := categories w @ [c]\<rparr>)))"
  using assms
  by (simp add: resume_def js_index_def getCategory_resumed_def Let_def arrived_def
           split: option.splits sum.splits)

lemma rejected_in_loop:
  assumes "pending w = [AwaitCategory i rest]"
    and "w' = run E (replicate n (RequestSettled 0)) (promise_settled (Throw e) (finished 0 (arrived (GetCategory i) w)))"
  shows "advanced w [] [Settled (GetCategory i)] [] [Throw e] w'"
    and "board w' = board w" and "alerts w' = alerts w @ [failure_notice]"
proof -
  let ?x = "finished 0 (arrived (GetCategory i) w)"
  have x: "advanced w [] [Settled (GetCategory i)] [] [] ?x" "board ?x = board w" "alerts ?x = alerts w"
    using assms(1) by (simp_all add: advanced_def finished_def arrived_def)
  then have p: "pending ?x = []" by (simp add: advanced_def)
  have w': "w' = promise_settled (Throw e) ?x"
    unfolding assms(2) using p by (rule settled_then_idle)
  show "advanced w [] [Settled (GetCategory i)] [] [Throw e] w'"
    using advanced_trans [OF x(1) promise_settled_advanced [of ?x "Throw e"]] p
    unfolding w' by simp
  show "board w' = board w" "alerts w' = alerts w @ [failure_notice]"
    unfolding w' using x(2,3) by (simp_all add: promise_settled_Throw)
qed

text \<open>
  A start that is the only one waiting, at the head of the loop with the ids left, after
  \<open>n\<close> of its requests have settled: it is still waiting, or it has resolved, or it has
  rejected; \<open>m\<close> categories were pushed.
\<close>

lemma getCategory_loop_alone:
  assumes "length (pending w) = 1"
    and "w' = run E (replicate n (RequestSettled 0)) (getCategory_loop 0 ids w)"
  shows "\<exists>m cs. fetched E (net_log w) ids m cs \<and>
     ((m < length ids \<and> m = n \<and> board w' = board w \<and> alerts w' = alerts w \<and>
       advanced w cs (exchange (take m ids) @ [Sent (GetCategory (ids ! m))])
         [AwaitCategory (ids ! m) (drop (Suc m) ids)] [] w') \<or>
      (m = length ids \<and> advanced w cs (exchange ids) [] [Normal] w') \<or>
      (m < length ids \<and> m < n \<and> board w' = board w \<and> alerts w' = alerts w @ [failure_notice] \<and>
       (\<exists>e. fails_at E (net_log w) ids m e \<and>
            advanced w cs (exchange (take (Suc m) ids)) [] [Throw e] w')))"
  using assms
proof (induction ids arbitrary: w n w')
  case Nil
  have p: "pending (finished 0 w) = []"
    using loop_end(2) [OF Nil.prems(1)] by (simp add: advanced_def)
  have "w' = promise_settled Normal (finished 0 w)"
    unfolding Nil.prems(2) loop_end(1) [OF Nil.prems(1)] using p by (rule settled_then_idle)
  then have "advanced w [] [] [] [Normal] w'"
    using advanced_trans [OF loop_end(2) [OF Nil.prems(1)] promise_settled_advanced [of "finished 0 w" Normal]] p
    by simp
  then show ?case using fetched_0 [of E "net_log w" "[]"] by auto
next
  case (Cons i rest)
  let ?wa = "getCategory_loop 0 (i # rest) w"
  note a = loop_next [OF Cons.prems(1), of i rest]
  have pa: "pending ?wa = [AwaitCategory i rest]" and la: "net_log ?wa = net_log w @ [Sent (GetCategory i)]"
    and ca: "categories ?wa = categories w" and sa: "settled ?wa = settled w"
    using a(1) by (simp_all add: advanced_def)
  show ?case
  proof (cases n)
    case 0
    then have "w' = ?wa" using Cons.prems(2) by simp
    then show ?thesis
      using a fetched_0 [of E "net_log w" "i # rest"] 0 by (intro exI [of _ 0] exI [of _ "[]"]) simp
  next
    case (Suc n')
    have w': "w' = run E (replicate n' (RequestSettled 0)) (resume E 0 ?wa)"
      using Cons.prems(2) Suc by simp
    show ?thesis
    proof (cases "category_api E (net_log w @ [Sent (GetCategory i)]) i")
      case None
      have r: "w' = run E (replicate n' (RequestSettled 0))
                      (promise_settled (Throw RequestFailed) (finished 0 (arrived (GetCategory i) ?wa)))"
        unfolding w' resumed_in_loop [OF pa] la None by simp
      note f = rejected_in_loop [OF pa r]
      have adv: "advanced w [] (exchange (take (Suc 0) (i # rest))) [] [Throw RequestFailed] w'"
        using advanced_trans [OF a(1) f(1)] by simp
      have fl: "fails_at E (net_log w) (i # rest) 0 RequestFailed"
        by (simp add: fails_at_0 None)
      show ?thesis
        using fetched_0 [of E "net_log w" "i # rest"] adv fl f(2,3) a(2,3) Suc
        by (intro exI [of _ 0] exI [of _ "[]"]) auto
    next
      case (Some d)
      show ?thesis
      proof (cases "category_of_data d")
        case (Inl e)
        have r: "w' = run E (replicate n' (RequestSettled 0))
                        (promise_settled (Throw e) (finished 0 (arrived (GetCategory i) ?wa)))"
          unfolding w' resumed_in_loop [OF pa] la Some by (simp add: Inl)
        note f = rejected_in_loop [OF pa r]
        have adv: "advanced w [] (exchange (take (Suc 0) (i # rest))) [] [Throw e] w'"
          using advanced_trans [OF a(1) f(1)] by simp
        have fl: "fails_at E (net_log w) (i # rest) 0 e"
          by (simp add: fails_at_0 Some Inl)
        show ?thesis
          using fetched_0 [of E "net_log w" "i # rest"] adv fl f(2,3) a(2,3) Suc
          by (intro exI [of _ 0] exI [of _ "[]"]) auto
      next
        case (Inr c)
        let ?w1 = "(arrived (GetCategory i) ?wa)\<lparr>categories := categories ?wa @ [c]\<rparr>"
        have r: "w' = run E (replicate n' (RequestSettled 0)) (getCategory_loop 0 rest ?w1)"
          unfolding w' resumed_in_loop [OF pa] la Some by (simp add: Inr)
        have p1: "length (pending ?w1) = 1" using pa by (simp add: arrived_def)
        have a1: "advanced w [c] [Sent (GetCategory i), Settled (GetCategory i)] [AwaitCategory i rest] [] ?w1"
          using a(1) by (simp add: advanced_def arrived_def)
        have b1: "board ?w1 = board w" "alerts ?w1 = alerts w"
          using a(2,3) by (simp_all add: arrived_def)
        have l1: "net_log ?w1 = net_log w @ [Sent (GetCategory i), Settled (GetCategory i)]"
          using a1 by (simp add: advanced_def)
        from Cons.IH [OF p1 r] obtain m cs where
          ft: "fetched E (net_log ?w1) rest m cs"
          and cases': "(m < length rest \<and> m = n' \<and> board w' = board ?w1 \<and> alerts w' = alerts ?w1 \<and>
              advanced ?w1 cs (exchange (take m rest) @ [Sent (GetCategory (rest ! m))])
                [AwaitCategory (rest ! m) (drop (Suc m) rest)] [] w') \<or>
             (m = length rest \<and> advanced ?w1 cs (exchange rest) [] [Normal] w') \<or>
             (m < length rest \<and> m < n' \<and> board w' = board ?w1 \<and> alerts w' = alerts ?w1 @ [failure_notice] \<and>
              (\<exists>e. fails_at E (net_log ?w1) rest m e \<and>
                   advanced ?w1 cs (exchange (take (Suc m) rest)) [] [Throw e] w'))"
          by blast
        have ft': "fetched E (net_log w) (i # rest) (Suc m) (c # cs)"
          using fetched_Suc [OF Some Inr] ft unfolding l1 by simp
        from cases' show ?thesis
        proof (elim disjE conjE exE)
          assume h: "m < length rest" "m = n'" "board w' = board ?w1" "alerts w' = alerts ?w1"
            "advanced ?w1 cs (exchange (take m rest) @ [Sent (GetCategory (rest ! m))])
                [AwaitCategory (rest ! m) (drop (Suc m) rest)] [] w'"
          have "advanced w (c # cs) (exchange (take (Suc m) (i # rest)) @ [Sent (GetCategory ((i # rest) ! Suc m))])
                  [AwaitCategory ((i # rest) ! Suc m) (drop (Suc (Suc m)) (i # rest))] [] w'"
            using advanced_trans [OF a1 h(5)] by simp
          then show ?thesis
            using ft' h(1,2,3,4) b1 Suc
            by (intro exI [of _ "Suc m"] exI [of _ "c # cs"]) simp
        next
          assume h: "m = length rest" "advanced ?w1 cs (exchange rest) [] [Normal] w'"
          have "advanced w (c # cs) (exchange (i # rest)) [] [Normal] w'"
            using advanced_trans [OF a1 h(2)] by simp
          then show ?thesis
            using ft' h(1) by (intro exI [of _ "Suc m"] exI [of _ "c # cs"]) simp
        next
          fix e
          assume h: "m < length rest" "m < n'" "board w' = board ?w1" "alerts w' = alerts ?w1 @ [failure_notice]"
            "fails_at E (net_log ?w1) rest m e"
            "advanced ?w1 cs (exchange (take (Suc m) rest)) [] [Throw e] w'"
          have adv: "advanced w (c # cs) (exchange (take (Suc (Suc m)) (i # rest))) [] [Throw e] w'"
            using advanced_trans [OF a1 h(6)] by simp
          have fl: "fails_at E (net_log w) (i # rest) (Suc m) e"
            using fails_at_Suc [of E "net_log w" i rest m e] h(5) unfolding l1 by simp
          show ?thesis
            using ft' h(1,2,3,4) b1 Suc adv fl
            by (intro exI [of _ "Suc m"] exI [of _ "c # cs"]) auto
        qed
      qed
    qed
  qed
qed




subsection \<open>getCategoryIds\<close>

lemma selected_ids_length: "length (selected_ids E k data) = min NUM_CATEGORIES (length data)"
  by (simp add: selected_ids_def sampleSize_length)

lemma setupAndStart_fields:
  "categories (setupAndStart E w) = []"
  "board (setupAndStart E w) = []"
  "alerts (setupAndStart E w) = alerts w"
  "settled (setupAndStart E w) = settled w"
  "random_calls (setupAndStart E w) = Suc (random_calls w)"
  "net_log (setupAndStart E w) = net_log w @ [Sent (GetCategories 100 (draw E (random_calls w) mod 7150))]"
  "pending (setupAndStart E w) = pending w @ [AwaitCategories 100 (draw E (random_calls w) mod 7150)]"
  by (simp_all add: setupAndStart_def getCategoryIds_def random_floor_def showLoadingView_def send_def)

lemma resumed_at_line_34:
  assumes "js_index (pending w) k = Some (AwaitCategories cnt offset)"
  shows "resume E k w =
     (case categories_api E (net_log w) cnt offset of
        None \<Rightarrow> promise_settled (Throw RequestFailed) (finished k (arrived (GetCategories cnt offset) w))
      | Some data \<Rightarrow>
          getCategory_loop k (selected_ids E (random_calls w) data)
            ((arrived (GetCategories cnt offset) w)
               \<lparr>random_calls := random_calls w + min NUM_CATEGORIES (length data)\<rparr>))"
proof (cases "categories_api E (net_log w) cnt offset")
  case None
  then show ?thesis
    using assms by (simp add: resume_def getCategoryIds_resumed_def Let_def)
next
  case (Some data)
  have r: "random_calls (arrived (GetCategories cnt offset) w) = random_calls w"
    by (simp add: arrived_def)
  obtain randomArray n where sn: "sampleSize E (random_calls w) data NUM_CATEGORIES = (randomArray, n)"
    by (cases "sampleSize E (random_calls w) data NUM_CATEGORIES")
  have n: "n = random_calls w + min NUM_CATEGORIES (length data)"
    using sampleSize_draws [of E "random_calls w" data NUM_CATEGORIES] sn by simp
  have i: "selected_ids E (random_calls w) data = map cat_id randomArray"
    by (simp add: selected_ids_def sn)
  show ?thesis
    using assms Some
    by (simp add: resume_def getCategoryIds_resumed_def Let_def r sn i n)
qed

text \<open>
  Claim C6, as amended. The click on the button sends one request for 100 candidates at
  a random offset below 7150, and the start waits for it. When that request fails, the
  start rejects without fetching any category. When it succeeds, the ids handed to
  \<^verbatim>\<open>getCategory\<close> are \<open>NUM_CATEGORIES\<close> ids, or all of them when the service
  returned fewer, taken from the batch without replacement: no id occurs more often than
  in the batch, so the ids are distinct when those of the batch are.
\<close>

theorem getCategoryIds_selection:
  assumes "js_index (pending w) k = Some (AwaitCategories cnt offset)"
    and "ids = selected_ids E (random_calls w) data"
  shows "pending (setupAndStart E w0) =
           pending w0 @ [AwaitCategories 100 (draw E (random_calls w0) mod 7150)] \<and>
         net_log (setupAndStart E w0) =
           net_log w0 @ [Sent (GetCategories 100 (draw E (random_calls w0) mod 7150))] \<and>
         (categories_api E (net_log w) cnt offset = None \<longrightarrow>
            resume E k w =
              promise_settled (Throw RequestFailed) (finished k (arrived (GetCategories cnt offset) w))) \<and>
         (categories_api E (net_log w) cnt offset = Some data \<longrightarrow>
            resume E k w =
              getCategory_loop k ids
                ((arrived (GetCategories cnt offset) w)
                   \<lparr>random_calls := random_calls w + min NUM_CATEGORIES (length data)\<rparr>) \<and>
            length ids = min NUM_CATEGORIES (length data) \<and>
            mset ids \<subseteq># mset (map cat_id data) \<and>
            (distinct (map cat_id data) \<longrightarrow> distinct ids))"
  using resumed_at_line_34 [OF assms(1), of E]
    sampleSize_map_subset [of cat_id E "random_calls w" data NUM_CATEGORIES]
    sampleSize_map_distinct [of cat_id data E "random_calls w" NUM_CATEGORIES]
  unfolding assms(2)
  by (simp add: setupAndStart_fields selected_ids_length) (simp add: selected_ids_def)

subsection \<open>A start that runs alone\<close>

text \<open>
  A start that runs alone, after \<open>n\<close> of its requests have settled: not yet answered; or
  the request for the candidates failed; or the candidates came and the loop is under
  way, has resolved or has rejected.
\<close>

lemma start_alone:
  assumes "pending w = []" and "w' = run E (alone n) w"
    and "offset = draw E (random_calls w) mod 7150"
    and "h = net_log w @ [Sent (GetCategories 100 offset), Settled (GetCategories 100 offset)]"
  shows "(n = 0 \<and> settled w' = settled w \<and> pending w' = [AwaitCategories 100 offset]) \<or>
     (0 < n \<and> categories_api E (net_log w @ [Sent (GetCategories 100 offset)]) 100 offset = None \<and>
      categories w' = [] \<and> net_log w' = h \<and> pending w' = [] \<and>
      settled w' = settled w @ [Throw RequestFailed] \<and> board w' = [] \<and>
      alerts w' = alerts w @ [failure_notice]) \<or>
     (0 < n \<and> (\<exists>data m cs.
        categories_api E (net_log w @ [Sent (GetCategories 100 offset)]) 100 offset = Some data \<and>
        fetched E h (selected_ids E (Suc (random_calls w)) data) m cs \<and> categories w' = cs \<and>
        ((m < length (selected_ids E (Suc (random_calls w)) data) \<and> Suc m = n \<and>
          settled w' = settled w \<and> pending w' \<noteq> []) \<or>
         (m = length (selected_ids E (Suc (random_calls w)) data) \<and>
          net_log w' = h @ exchange (selected_ids E (Suc (random_calls w)) data) \<and>
          pending w' = [] \<and> settled w' = settled w @ [Normal]) \<or>
         (m < length (selected_ids E (Suc (random_calls w)) data) \<and> Suc m < n \<and>
          board w' = [] \<and> alerts w' = alerts w @ [failure_notice] \<and>
          net_log w' = h @ exchange (take (Suc m) (selected_ids E (Suc (random_calls w)) data)) \<and>
          pending w' = [] \<and>
          (\<exists>e. fails_at E h (selected_ids E (Suc (random_calls w)) data) m e \<and>
               settled w' = settled w @ [Throw e])))))"
proof (cases n)
  case 0
  then have "w' = setupAndStart E w" using assms(2) by (simp add: alone_def)
  then show ?thesis using 0 assms(1,3) by (simp add: setupAndStart_fields)
next
  case (Suc n')
  let ?cat = "GetCategories 100 offset"
  let ?w0 = "setupAndStart E w"
  have p0: "pending ?w0 = [AwaitCategories 100 offset]" and l0: "net_log ?w0 = net_log w @ [Sent ?cat]"
    using assms(1,3) by (simp_all add: setupAndStart_fields)
  have j0: "js_index (pending ?w0) 0 = Some (AwaitCategories 100 offset)"
    by (simp add: p0 js_index_def)
  have w': "w' = run E (replicate n' (RequestSettled 0)) (resume E 0 ?w0)"
    using assms(2) Suc by (simp add: alone_def)
  show ?thesis
  proof (cases "categories_api E (net_log w @ [Sent ?cat]) 100 offset")
    case None
    let ?x = "finished 0 (arrived ?cat ?w0)"
    have x: "pending ?x = []" "categories ?x = []" "net_log ?x = h" "settled ?x = settled w"
      "board ?x = []" "alerts ?x = alerts w"
      using p0 l0 assms(4) by (simp_all add: finished_def arrived_def setupAndStart_fields)
    have "w' = promise_settled (Throw RequestFailed) ?x"
      unfolding w' resumed_at_line_34 [OF j0] l0 None using settled_then_idle [OF x(1)] by simp
    then show ?thesis
      using promise_settled_advanced [of ?x "Throw RequestFailed"] x None Suc
      by (simp add: advanced_def promise_settled_Throw)
  next
    case (Some data)
    let ?ids = "selected_ids E (Suc (random_calls w)) data"
    let ?w1 = "(arrived ?cat ?w0)\<lparr>random_calls := random_calls ?w0 + min NUM_CATEGORIES (length data)\<rparr>"
    have r: "w' = run E (replicate n' (RequestSettled 0)) (getCategory_loop 0 ?ids ?w1)"
      unfolding w' resumed_at_line_34 [OF j0] l0 Some by (simp add: setupAndStart_fields)
    have f1: "length (pending ?w1) = 1" "net_log ?w1 = h" "categories ?w1 = []" "settled ?w1 = settled w"
      "board ?w1 = []" "alerts ?w1 = alerts w"
      using p0 l0 assms(4) by (simp_all add: arrived_def setupAndStart_fields)
    from getCategory_loop_alone [OF f1(1) r] obtain m cs where
      ft: "fetched E h ?ids m cs"
      and c: "(m < length ?ids \<and> m = n' \<and> board w' = board ?w1 \<and> alerts w' = alerts ?w1 \<and>
           advanced ?w1 cs (exchange (take m ?ids) @ [Sent (GetCategory (?ids ! m))])
             [AwaitCategory (?ids ! m) (drop (Suc m) ?ids)] [] w') \<or>
          (m = length ?ids \<and> advanced ?w1 cs (exchange ?ids) [] [Normal] w') \<or>
          (m < length ?ids \<and> m < n' \<and> board w' = board ?w1 \<and> alerts w' = alerts ?w1 @ [failure_notice] \<and>
           (\<exists>e. fails_at E (net_log ?w1) ?ids m e \<and>
                advanced ?w1 cs (exchange (take (Suc m) ?ids)) [] [Throw e] w'))"
      unfolding f1(2) by blast
    have "categories w' = cs"
      using c f1(3) by (auto simp: advanced_def)
    moreover have "(m < length ?ids \<and> Suc m = n \<and> settled w' = settled w \<and> pending w' \<noteq> []) \<or>
         (m = length ?ids \<and> net_log w' = h @ exchange ?ids \<and> pending w' = [] \<and>
          settled w' = settled w @ [Normal]) \<or>
         (m < length ?ids \<and> Suc m < n \<and> board w' = [] \<and> alerts w' = alerts w @ [failure_notice] \<and>
          net_log w' = h @ exchange (take (Suc m) ?ids) \<and> pending w' = [] \<and>
          (\<exists>e. fails_at E h ?ids m e \<and> settled w' = settled w @ [Throw e]))"
      using c unfolding f1(2,4,5,6) advanced_def Suc by auto
    ultimately show ?thesis
      using Some ft Suc by blast
  qed
qed

lemma fails_at_unfetched:
  assumes "fails_at E h ids m e"
  shows "\<not> (\<exists>d. category_api E (h @ exchange (take m ids) @ [Sent (GetCategory (ids ! m))]) (ids ! m) = Some d \<and>
               raw_clues d \<noteq> [])"
  using assms by (auto simp: fails_at_def category_of_data_eq split: option.splits if_splits)

lemma fetched_nonempty:
  assumes "fetched E h ids m cs" and "j < m"
  shows "\<exists>d. category_api E (h @ exchange (take j ids) @ [Sent (GetCategory (ids ! j))]) (ids ! j) = Some d \<and>
             raw_clues d \<noteq> []"
proof -
  from assms obtain d where
    "category_api E (h @ exchange (take j ids) @ [Sent (GetCategory (ids ! j))]) (ids ! j) = Some d"
    "category_of_data d = Inr (cs ! j)"
    unfolding fetched_def by blast
  then show ?thesis by (auto simp: category_of_data_eq split: if_splits)
qed


text \<open>
  Claim C1, as amended. When a start runs alone and its promise resolves, and the
  service returned at least \<open>NUM_CATEGORIES\<close> candidates and at least \<open>NUM_CLUES\<close>
  clues in the data of every category fetched, the array holds exactly
  \<open>NUM_CATEGORIES\<close> categories of exactly \<open>NUM_CLUES\<close> clues each, and after any
  sequence of clicks on cells it still does: every address \<open>(i, j)\<close> with
  \<open>i < NUM_CATEGORIES\<close> and \<open>j < NUM_CLUES\<close> is the address of a clue.
\<close>

theorem session_shape:
  assumes "pending w = []" and "w' = run E (alone n) w" and "settled w' = settled w @ [Normal]"
    and "offset = draw E (random_calls w) mod 7150"
    and "h = net_log w @ [Sent (GetCategories 100 offset), Settled (GetCategories 100 offset)]"
    and "categories_api E (net_log w @ [Sent (GetCategories 100 offset)]) 100 offset = Some data"
    and "ids = selected_ids E (Suc (random_calls w)) data"
    and "NUM_CATEGORIES \<le> length data"
    and "\<forall>i<length ids. \<forall>d.
           category_api E (h @ exchange (take i ids) @ [Sent (GetCategory (ids ! i))]) (ids ! i) = Some d
           \<longrightarrow> NUM_CLUES \<le> length (raw_clues d)"
    and "cats = clicks es (categories w')"
  shows "length cats = NUM_CATEGORIES \<and>
         (\<forall>i<NUM_CATEGORIES. length (clues (cats ! i)) = NUM_CLUES \<and>
            (\<forall>j<NUM_CLUES. valid_address cats i j))"
proof -
  from start_alone [OF assms(1,2,4,5)] assms(3,6)
  have l: "length (categories w') = length ids"
    and ok: "\<forall>i<length ids. \<exists>d. category_api E (h @ exchange (take i ids) @ [Sent (GetCategory (ids ! i))]) (ids ! i) = Some d \<and>
                   category_of_data d = Inr (categories w' ! i)"
    unfolding assms(7) by (auto simp: fetched_def)
  have n: "length (categories w') = NUM_CATEGORIES"
    using l assms(7,8) by (simp add: selected_ids_length)
  have q: "\<forall>i<NUM_CATEGORIES. length (clues (categories w' ! i)) = NUM_CLUES"
  proof (intro allI impI)
    fix i assume i: "i < NUM_CATEGORIES"
    then have il: "i < length ids" using l n by simp
    with ok obtain d where d: "category_api E (h @ exchange (take i ids) @ [Sent (GetCategory (ids ! i))]) (ids ! i) = Some d"
      "category_of_data d = Inr (categories w' ! i)" by blast
    have "NUM_CLUES \<le> length (raw_clues d)" using assms(9) il d(1) by simp
    then show "length (clues (categories w' ! i)) = NUM_CLUES"
      using category_of_data_length [OF d(2)] by simp
  qed
  show ?thesis
    unfolding assms(10) using n q
    by (simp add: clicks_length clicks_clues_length valid_address_def)
qed

text \<open>
  Claim C3, as amended. When a start runs alone, the fetches of the first \<open>m\<close>
  selected ids succeed and the fetch of the next one fails (the request fails, or its
  data has no clue), then the promise rejects, the table is not filled (the board stays
  empty), the failure notice is shown exactly once, no further request is sent, and the
  \<^verbatim>\<open>categories\<close> array holds exactly the \<open>m\<close> categories fetched before the failure,
  in the order of their ids: the array was emptied at the start and is filled as the
  fetches succeed.
\<close>

theorem setupAndStart_failed_fetch:
  assumes "pending w = []" and "w' = run E (alone n) w" and "Suc m < n"
    and "offset = draw E (random_calls w) mod 7150"
    and "h = net_log w @ [Sent (GetCategories 100 offset), Settled (GetCategories 100 offset)]"
    and "categories_api E (net_log w @ [Sent (GetCategories 100 offset)]) 100 offset = Some data"
    and "ids = selected_ids E (Suc (random_calls w)) data"
    and "m < length ids"
    and "\<forall>i<m. \<exists>d. category_api E (h @ exchange (take i ids) @ [Sent (GetCategory (ids ! i))]) (ids ! i) = Some d \<and>
                  raw_clues d \<noteq> []"
    and "case category_api E (h @ exchange (take m ids) @ [Sent (GetCategory (ids ! m))]) (ids ! m) of
           None \<Rightarrow> True | Some d \<Rightarrow> raw_clues d = []"
  shows "board w' = [] \<and> alerts w' = alerts w @ [failure_notice] \<and> pending w' = [] \<and>
         (\<exists>e. settled w' = settled w @ [Throw e]) \<and>
         net_log w' = h @ exchange (take (Suc m) ids) \<and>
         length (categories w') = m \<and>
         (\<forall>i<m. \<exists>d. category_api E (h @ exchange (take i ids) @ [Sent (GetCategory (ids ! i))]) (ids ! i) = Some d \<and>
                  category_of_data d = Inr (categories w' ! i))"
proof -
  from start_alone [OF assms(1,2,4,5)] assms(3,6) obtain m' cs where
    ft: "fetched E h ids m' cs" and c: "categories w' = cs"
    and cases': "(m' < length ids \<and> Suc m' = n \<and> settled w' = settled w \<and> pending w' \<noteq> []) \<or>
         (m' = length ids \<and> net_log w' = h @ exchange ids \<and> pending w' = [] \<and>
          settled w' = settled w @ [Normal]) \<or>
         (m' < length ids \<and> Suc m' < n \<and> board w' = [] \<and> alerts w' = alerts w @ [failure_notice] \<and>
          net_log w' = h @ exchange (take (Suc m') ids) \<and> pending w' = [] \<and>
          (\<exists>e. fails_at E h ids m' e \<and> settled w' = settled w @ [Throw e]))"
    unfolding assms(7) by auto
  have up: "\<not> m < m'"
  proof
    assume "m < m'"
    from fetched_nonempty [OF ft this] assms(10) show False by auto
  qed
  have down: "m' < m \<Longrightarrow> \<not> (\<exists>e. fails_at E h ids m' e)"
    using assms(9) fails_at_unfetched [of E h ids m'] by blast
  from cases' have "m' = m \<and> board w' = [] \<and> alerts w' = alerts w @ [failure_notice] \<and>
      net_log w' = h @ exchange (take (Suc m') ids) \<and> pending w' = [] \<and>
      (\<exists>e. settled w' = settled w @ [Throw e])"
  proof (elim disjE conjE exE)
    assume "m' < length ids" "Suc m' = n"
    then show ?thesis using assms(3) up by simp
  next
    assume "m' = length ids"
    then show ?thesis using assms(8) up by simp
  next
    fix e assume "m' < length ids" "Suc m' < n" "board w' = []" "alerts w' = alerts w @ [failure_notice]"
      "net_log w' = h @ exchange (take (Suc m') ids)" "pending w' = []" "fails_at E h ids m' e"
      "settled w' = settled w @ [Throw e]"
    moreover from this(7) down up have "m' = m" by (metis linorder_neqE_nat)
    ultimately show ?thesis by blast
  qed
  then show ?thesis
    using ft c by (auto simp: fetched_def)
qed

section \<open>The theorems on concrete runs\<close>

subsection \<open>Clicks on a board of two categories\<close>

theorem handleClick_three_state_law_witness:
  "fst (handleClick (cell 0 0) two_categories) = Normal \<and>
   innerText (fst (snd (handleClick (cell 0 0) two_categories))) = ''2+2'' \<and>
   showing (clue_at (snd (snd (handleClick (cell 0 0) two_categories))) 0 0) = Question"
proof -
  have v: "valid_address two_categories 0 0"
    by (simp add: valid_address_def two_categories_def)
  have s: "clue_at two_categories 0 0 = \<lparr>question = ''2+2'', answer = ''4'', showing = Null\<rparr>"
    by (simp add: clue_at_def two_categories_def)
  show ?thesis
    using handleClick_three_state_law [of two_categories 0 0 "cell 0 0", OF v]
    by (simp add: s cell_def)
qed

theorem handleClick_out_of_range_counterexample:
  "fst (handleClick (cell 0 5) two_categories) = Throw TypeError"
  by (simp add: handleClick_def js_index_def cell_def two_categories_def)

theorem handleClick_out_of_range_throws_witness:
  "handleClick (cell 2 0) two_categories = (Throw TypeError, target (cell 2 0), two_categories)"
  using handleClick_out_of_range_throws [of two_categories "cell 2 0"]
  by (simp add: cell_def two_categories_def)

theorem handleClick_frame_witness:
  "length (snd (snd (handleClick (cell 1 1) two_categories))) = length two_categories \<and>
   title (snd (snd (handleClick (cell 1 1) two_categories)) ! 1) = ''Literature'' \<and>
   question (clue_at (snd (snd (handleClick (cell 1 1) two_categories))) 1 1) = ''Bell Jar Author'' \<and>
   clue_at (snd (snd (handleClick (cell 1 1) two_categories))) 1 0 = clue_at two_categories 1 0 \<and>
   clue_at (snd (snd (handleClick (cell 1 1) two_categories))) 0 0 = clue_at two_categories 0 0"
proof -
  let ?cats' = "snd (snd (handleClick (cell 1 1) two_categories))"
  have c: "data_category (target (cell 1 1)) = 1" "parentElement_id (cell 1 1) = 1"
    by (simp_all add: cell_def)
  have v: "valid_address two_categories (data_category (target (cell 1 1))) (parentElement_id (cell 1 1))"
    by (simp add: valid_address_def two_categories_def cell_def)
  have i: "0 < length two_categories" "1 < length two_categories"
    and j: "0 < length (clues (two_categories ! 0))" "0 < length (clues (two_categories ! 1))"
      "1 < length (clues (two_categories ! 1))"
    and t: "title (two_categories ! 1) = ''Literature''"
      "question (clue_at two_categories 1 1) = ''Bell Jar Author''"
    by (simp_all add: two_categories_def clue_at_def)
  note f = handleClick_frame [OF v refl, unfolded c]
  from f have "length ?cats' = length two_categories" by blast
  moreover from f i(2) t(1) have "title (?cats' ! 1) = ''Literature''" by simp
  moreover from f i(2) j(3) t(2) have "question (clue_at ?cats' 1 1) = ''Bell Jar Author''" by simp
  moreover from f i(2) j(2) have "clue_at ?cats' 1 0 = clue_at two_categories 1 0" by simp
  moreover from f i(1) j(1) have "clue_at ?cats' 0 0 = clue_at two_categories 0 0" by simp
  ultimately show ?thesis by blast
qed

theorem showing_only_moves_forward_witness:
  "showing (clue_at two_categories 0 1) = Question \<and>
   showing (clue_at (snd (snd (handleClick (cell 0 1) two_categories))) 0 1) = Answer \<and>
   rank (showing (clue_at two_categories 0 1))
     \<le> rank (showing (clue_at (clicks [cell 0 1, cell 1 0, cell 0 1] two_categories) 0 1))"
proof -
  have v: "valid_address two_categories 0 1"
    by (simp add: valid_address_def two_categories_def)
  have a: "showing (clue_at two_categories 0 1) = Question"
    by (simp add: clue_at_def two_categories_def)
  have b: "showing (clue_at (snd (snd (handleClick (cell 0 1) two_categories))) 0 1) = Answer"
    by code_simp
  show ?thesis
    using showing_only_moves_forward [of two_categories 0 1 "cell 0 1" "[cell 0 1, cell 1 0, cell 0 1]", OF v] a b
    by simp
qed

theorem repeat_click_saturates_witness:
  "repeat_click 5 (cell 1 1) two_categories = repeat_click 2 (cell 1 1) two_categories \<and>
   showing (clue_at (snd (repeat_click 5 (cell 1 1) two_categories)) 1 1) = Answer"
proof -
  have v: "valid_address two_categories (data_category (target (cell 1 1))) (parentElement_id (cell 1 1))"
    by (simp add: valid_address_def two_categories_def cell_def)
  have s: "showing (clue_at two_categories (data_category (target (cell 1 1))) (parentElement_id (cell 1 1))) = Null"
    by (simp add: clue_at_def two_categories_def cell_def)
  have c: "data_category (target (cell 1 1)) = 1" "parentElement_id (cell 1 1) = 1"
    by (simp_all add: cell_def)
  have n: "(2::nat) \<le> 5" by simp
  show ?thesis
    using repeat_click_saturates [OF v s n] unfolding c .
qed

subsection \<open>Runs of the acquisition\<close>

lemma ten_clues_length: "length ten_clues = 10"
  by (simp add: ten_clues_def five_clues_def)

theorem category_of_data_first_clues_witness:
  "category_of_data \<lparr>raw_title = ''Math'', raw_clues = ten_clues\<rparr> =
     Inr \<lparr>title = ''Math'',
          clues = [\<lparr>question = ''2+2'', answer = ''4'', showing = Null\<rparr>,
                   \<lparr>question = ''1+1'', answer = ''2'', showing = Null\<rparr>,
                   \<lparr>question = ''3+3'', answer = ''6'', showing = Null\<rparr>,
                   \<lparr>question = ''2+1'', answer = ''3'', showing = Null\<rparr>,
                   \<lparr>question = ''4+4'', answer = ''8'', showing = Null\<rparr>]\<rparr>"
  using category_of_data_first_clues [of "\<lparr>raw_title = ''Math'', raw_clues = ten_clues\<rparr>"]
  by (simp add: ten_clues_def five_clues_def NUM_CLUES_def)

theorem category_of_data_first_clues_counterexample:
  "category_of_data \<lparr>raw_title = ''Math'', raw_clues = []\<rparr> = Inl TypeError"
  by (simp add: category_of_data_eq)

lemma env_ok_category:
  "category_api env_ok h i = Some \<lparr>raw_title = example_title i, raw_clues = ten_clues\<rparr>"
  by (simp add: env_ok_def)

lemma env_ok_selected: "selected_ids env_ok (Suc 0) eight_candidates = [15, 12, 17, 11, 10, 13]"
  by code_simp

lemma env_ok_alone: "settled (run env_ok (alone 7) page0) = [Normal]"
  by code_simp

lemma page0_fields: "pending page0 = []" "settled page0 = []" "net_log page0 = []" "random_calls page0 = 0"
  "alerts page0 = []"
  by (simp_all add: page0_def)

theorem getCategoryIds_selection_witness:
  "resume env_ok 0 (setupAndStart env_ok page0) =
     getCategory_loop 0 [15, 12, 17, 11, 10, 13]
       ((arrived (GetCategories 100 2) (setupAndStart env_ok page0))
          \<lparr>random_calls := Suc 0 + min NUM_CATEGORIES (length eight_candidates)\<rparr>) \<and>
   length [15, 12, 17, 11, 10, 13 :: int] = min NUM_CATEGORIES (length eight_candidates) \<and>
   mset [15, 12, 17, 11, 10, 13] \<subseteq># mset (map cat_id eight_candidates) \<and>
   distinct [15, 12, 17, 11, 10, 13 :: int]"
proof -
  have o: "draw env_ok 0 mod 7150 = 2" by (simp add: env_ok_def)
  have p: "js_index (pending (setupAndStart env_ok page0)) 0 = Some (AwaitCategories 100 2)"
    by (simp add: setupAndStart_fields page0_fields o js_index_def)
  have r: "random_calls (setupAndStart env_ok page0) = Suc 0"
    by (simp add: setupAndStart_fields page0_fields)
  have b: "categories_api env_ok (net_log (setupAndStart env_ok page0)) 100 2 = Some eight_candidates"
    by (simp add: env_ok_def)
  have d: "distinct (map cat_id eight_candidates)"
    by (simp add: eight_candidates_def)
  from getCategoryIds_selection [where E = env_ok and data = eight_candidates, OF p refl] b d
  show ?thesis unfolding r env_ok_selected by blast
qed

theorem getCategoryIds_selection_counterexample:
  "categories_api env_few [Sent (GetCategories 100 2)] 100 2 = Some (take 2 eight_candidates) \<and>
   settled (run env_few (alone 3) page0) = [Normal] \<and>
   net_log (run env_few (alone 3) page0) =
     [Sent (GetCategories 100 2), Settled (GetCategories 100 2),
      Sent (GetCategory 11), Settled (GetCategory 11), Sent (GetCategory 10), Settled (GetCategory 10)]"
  by code_simp



theorem session_shape_counterexample:
  "settled (run env_short (alone 3) page0) = [Normal] \<and>
   length (categories (run env_short (alone 3) page0)) = 2 \<and>
   length (clues (categories (run env_short (alone 3) page0) ! 0)) = 3 \<and>
   settled (run env_ok overlapped page0) = [Normal, Normal] \<and>
   length (categories (run env_ok overlapped page0)) = 12"
  by code_simp

theorem session_shape_witness:
  "length (clicks [cell 2 3, cell 2 3, cell 9 9] (categories (run env_ok (alone 7) page0))) = NUM_CATEGORIES \<and>
   length (clues (clicks [cell 2 3, cell 2 3, cell 9 9] (categories (run env_ok (alone 7) page0)) ! 5)) = NUM_CLUES \<and>
   valid_address (clicks [cell 2 3, cell 2 3, cell 9 9] (categories (run env_ok (alone 7) page0))) 5 4"
proof -
  let ?h = "net_log page0 @ [Sent (GetCategories 100 (draw env_ok (random_calls page0) mod 7150)),
                            Settled (GetCategories 100 (draw env_ok (random_calls page0) mod 7150))]"
  let ?ids = "selected_ids env_ok (Suc (random_calls page0)) eight_candidates"
  have s: "settled (run env_ok (alone 7) page0) = settled page0 @ [Normal]"
    by (simp add: env_ok_alone page0_fields)
  have b: "categories_api env_ok (net_log page0 @ [Sent (GetCategories 100 (draw env_ok (random_calls page0) mod 7150))])
             100 (draw env_ok (random_calls page0) mod 7150) = Some eight_candidates"
    by (simp add: env_ok_def)
  have c: "NUM_CATEGORIES \<le> length eight_candidates"
    by (simp add: NUM_CATEGORIES_def eight_candidates_def)
  have d: "\<forall>i<length ?ids. \<forall>d.
           category_api env_ok (?h @ exchange (take i ?ids) @ [Sent (GetCategory (?ids ! i))]) (?ids ! i) = Some d
           \<longrightarrow> NUM_CLUES \<le> length (raw_clues d)"
    using ten_clues_length by (auto simp: env_ok_category NUM_CLUES_def)
  have n: "(5::nat) < NUM_CATEGORIES" "(4::nat) < NUM_CLUES"
    by (simp_all add: NUM_CATEGORIES_def NUM_CLUES_def)
  show ?thesis
    using session_shape [OF page0_fields(1) refl s refl refl b refl c d refl,
        of "[cell 2 3, cell 2 3, cell 9 9]"] n
    by blast
qed

theorem setupAndStart_failed_fetch_counterexample:
  "map title (categories page_old) = [''Math'', ''Literature''] \<and>
   map title (categories (run env_fail (alone 3) page_old)) = [''Txxxxx''] \<and>
   alerts (run env_fail (alone 3) page_old) = [failure_notice] \<and>
   settled (run env_late overlapped page0) = [Normal, Throw RequestFailed] \<and>
   length (board (run env_late overlapped page0)) = 2 \<and>
   length (categories (run env_late overlapped page0)) = 6"
  by code_simp

lemma env_fail_selected:
  "selected_ids env_fail (Suc (random_calls page_old)) eight_candidates = [15, 12, 17, 11, 10, 13]"
  by code_simp

theorem setupAndStart_failed_fetch_witness:
  "board (run env_fail (alone 3) page_old) = [] \<and>
   alerts (run env_fail (alone 3) page_old) = alerts page_old @ [failure_notice] \<and>
   net_log (run env_fail (alone 3) page_old) =
     [Sent (GetCategories 100 2), Settled (GetCategories 100 2),
      Sent (GetCategory 15), Settled (GetCategory 15), Sent (GetCategory 12), Settled (GetCategory 12)] \<and>
   length (categories (run env_fail (alone 3) page_old)) = 1"
proof -
  let ?ids = "[15, 12, 17, 11, 10, 13] :: int list"
  let ?h = "[Sent (GetCategories 100 2), Settled (GetCategories 100 2)]"
  have f: "pending page_old = []" "net_log page_old = []"
    by (simp_all add: page_old_def)
  have o: "draw env_fail (random_calls page_old) mod 7150 = 2"
    by (simp add: env_fail_def env_ok_def page_old_def)
  have h: "?h = net_log page_old @ [Sent (GetCategories 100 2), Settled (GetCategories 100 2)]"
    by (simp add: f)
  have b: "categories_api env_fail (net_log page_old @ [Sent (GetCategories 100 2)]) 100 2 = Some eight_candidates"
    by (simp add: env_fail_def env_ok_def)
  have n: "Suc 1 < (3::nat)" by simp
  have m: "1 < length ?ids" by simp
  have ok: "\<forall>i<1. \<exists>d. category_api env_fail (?h @ exchange (take i ?ids) @ [Sent (GetCategory (?ids ! i))]) (?ids ! i) = Some d \<and>
                  raw_clues d \<noteq> []"
    using ten_clues_length by (auto simp: env_fail_def env_ok_def)
  have bad: "case category_api env_fail (?h @ exchange (take 1 ?ids) @ [Sent (GetCategory (?ids ! 1))]) (?ids ! 1) of
           None \<Rightarrow> True | Some d \<Rightarrow> raw_clues d = []"
    by (simp add: env_fail_def env_ok_def)
  from setupAndStart_failed_fetch [OF f(1) refl n o [symmetric] h b env_fail_selected [symmetric] m ok bad]
  show ?thesis by (simp add: f)
qed

end
